theory Spec2Isabelle
  imports Main "HOL-Library.Word"
begin

unbundle bit_operations_syntax

section \<open>Types (include/types.hpp) and configuration (include/config.hpp)\<close>

type_synonym u8 = "8 word"
type_synonym u16 = "16 word"
type_synonym u32 = "32 word"

datatype Status = Ok | Error | Busy | Timeout | InvalidArg | NotReady | NoMemory
  | NotFound | Permission | HwError

text \<open>
  What a call of a function that need not return comes to: it returns, or control is
  lost in code it calls, or it is still going round its own endless loop when the
  iterations counted out to it are used up. Each case carries the state reached.
\<close>

datatype 'm outcome = Returned 'm | Hang 'm | Spinning 'm

text \<open>
  The target is a 32-bit Cortex-M4, so the \<^verbatim>\<open>UL\<close> constant of config.hpp is a 32-bit
  unsigned value and arithmetic on it wraps modulo \<open>2 ^ 32\<close>.
\<close>

definition SYSTEM_CLOCK_HZ :: u32 where
  "SYSTEM_CLOCK_HZ = 168000000"

definition TICK_RATE_HZ :: u32 where
  "TICK_RATE_HZ = 1000"

definition UART_BUFFER_SIZE :: nat where
  "UART_BUFFER_SIZE = 256"

section \<open>System core (src/system.cpp)\<close>

text \<open>
  The volatile objects system.cpp touches are the static tick counter and words at fixed
  addresses. Every volatile access and every inline-assembly instruction is an observable
  event; the state keeps them in program order in \<open>trace\<close>.
\<close>

datatype loc = TickCount | Reg u32

datatype event = Read loc | Write loc u32 | Nop | Dsb | Wfi

record sys =
  s_tickCount :: u32
  regs :: "u32 \<Rightarrow> u32"
  trace :: "event list"

definition asm :: "event \<Rightarrow> sys \<Rightarrow> sys" where
  "asm e s = s\<lparr>trace := trace s @ [e]\<rparr>"

fun vread :: "loc \<Rightarrow> sys \<Rightarrow> u32 \<times> sys" where
  "vread TickCount s = (s_tickCount s, s\<lparr>trace := trace s @ [Read TickCount]\<rparr>)"
| "vread (Reg a) s = (regs s a, s\<lparr>trace := trace s @ [Read (Reg a)]\<rparr>)"

fun vwrite :: "loc \<Rightarrow> u32 \<Rightarrow> sys \<Rightarrow> sys" where
  "vwrite TickCount v s = s\<lparr>s_tickCount := v, trace := trace s @ [Write TickCount v]\<rparr>"
| "vwrite (Reg a) v s = s\<lparr>regs := (regs s)(a := v), trace := trace s @ [Write (Reg a) v]\<rparr>"

definition AIRCR :: u32 where "AIRCR = 0xE000ED0C"
definition SCR :: u32 where "SCR = 0xE000ED10"
definition SYST_CSR :: u32 where "SYST_CSR = 0xE000E010"
definition SYST_RVR :: u32 where "SYST_RVR = 0xE000E014"
definition SYST_CVR :: u32 where "SYST_CVR = 0xE000E018"
definition UID_BASE :: u32 where "UID_BASE = 0x1FFF7A10"

definition initClocks :: "sys \<Rightarrow> sys" where
  "initClocks s = s"

definition initSysTick :: "sys \<Rightarrow> sys" where
  "initSysTick s =
     (let reloadValue = (SYSTEM_CLOCK_HZ div TICK_RATE_HZ) - 1;
          s1 = vwrite (Reg SYST_RVR) reloadValue s;
          s2 = vwrite (Reg SYST_CVR) 0 s1
      in vwrite (Reg SYST_CSR) (push_bit 0 1 OR push_bit 1 1 OR push_bit 2 1) s2)"

definition initNvic :: "sys \<Rightarrow> sys" where
  "initNvic s = vwrite (Reg AIRCR) (push_bit 16 0x5FA OR push_bit 8 3) s"

definition init :: "sys \<Rightarrow> Status \<times> sys" where
  "init s = (Ok, initNvic (initSysTick (initClocks s)))"

definition getTicks :: "sys \<Rightarrow> u32 \<times> sys" where
  "getTicks s = vread TickCount s"

definition delayUs_cycles :: "u32 \<Rightarrow> u32" where
  "delayUs_cycles us = (SYSTEM_CLOCK_HZ div 1000000) * us div 4"

function delayUs_loop :: "u32 \<Rightarrow> sys \<Rightarrow> sys" where
  "delayUs_loop cycles s = (if cycles \<noteq> 0 then delayUs_loop (cycles - 1) (asm Nop s) else s)"
  by pat_completeness auto
termination
  by (relation "measure (\<lambda>(cycles, s). unat cycles)") (auto simp: unat_minus_one unat_gt_0)

declare delayUs_loop.simps [simp del]

definition delayUs :: "u32 \<Rightarrow> sys \<Rightarrow> sys" where
  "delayUs us s = delayUs_loop (delayUs_cycles us) s"

definition getSystemClock :: "sys \<Rightarrow> u32" where
  "getSystemClock s = SYSTEM_CLOCK_HZ"

definition sleep :: "sys \<Rightarrow> sys" where
  "sleep s = asm Wfi s"

definition deepSleep :: "sys \<Rightarrow> sys" where
  "deepSleep s =
     (let (v, s1) = vread (Reg SCR) s;
          s2 = vwrite (Reg SCR) (v OR push_bit 2 1) s1;
          s3 = asm Dsb s2;
          s4 = asm Wfi s3;
          (w, s5) = vread (Reg SCR) s4
      in vwrite (Reg SCR) (w AND NOT (push_bit 2 1)) s5)"

text \<open>
  \<open>getUniqueId\<close> receives the caller's array; the model returns it updated. The source
  writes elements 0, 1 and 2 whatever the array's size, so the caller must pass at least
  three elements.
\<close>

definition getUniqueId :: "u32 list \<Rightarrow> sys \<Rightarrow> u32 list \<times> sys" where
  "getUniqueId id0 s =
     (let (w0, s1) = vread (Reg (UID_BASE + 4 * 0)) s;
          id1 = id0[0 := w0];
          (w1, s2) = vread (Reg (UID_BASE + 4 * 1)) s1;
          id2 = id1[1 := w1];
          (w2, s3) = vread (Reg (UID_BASE + 4 * 2)) s2;
          id3 = id2[2 := w2]
      in (id3, s3))"

definition enablePeripheralClock :: "u32 \<Rightarrow> sys \<Rightarrow> Status \<times> sys" where
  "enablePeripheralClock peripheral s = (Ok, s)"

definition disablePeripheralClock :: "u32 \<Rightarrow> sys \<Rightarrow> Status \<times> sys" where
  "disablePeripheralClock peripheral s = (Ok, s)"

definition SysTick_Handler :: "sys \<Rightarrow> sys" where
  "SysTick_Handler s = (let (v, s1) = vread TickCount s in vwrite TickCount (v + 1) s1)"

text \<open>
  \<open>reset\<close> writes the reset request and then spins in a loop that has no exit. The
  model runs the loop for a given number of iterations and yields the state reached, so
  that what the function does before and while spinning stays visible.
\<close>

fun reset_spin :: "nat \<Rightarrow> sys \<Rightarrow> sys outcome" where
  "reset_spin 0 s = Spinning s"
| "reset_spin (Suc n) s = reset_spin n (asm Nop s)"

definition reset :: "nat \<Rightarrow> sys \<Rightarrow> sys outcome" where
  "reset n s = reset_spin n (vwrite (Reg AIRCR) (push_bit 16 0x5FA OR push_bit 2 1) s)"

text \<open>
  \<open>delayMs\<close> polls the volatile counter, which only the SysTick interrupt advances, so
  the loop is modelled together with the interrupts that preempt it: \<open>irq 0\<close> is the number
  of SysTick interrupts taken between the read of \<open>start\<close> and the first test of the loop
  condition, \<open>irq (Suc k)\<close> the number taken during iteration \<open>k\<close> of the body. The loop
  may never exit, hence a partial function; on return the model gives the number of
  iterations executed and the state.
\<close>

definition interrupts :: "nat \<Rightarrow> sys \<Rightarrow> sys" where
  "interrupts n s = (SysTick_Handler ^^ n) s"

partial_function (option) delayMs_loop ::
    "(nat \<Rightarrow> nat) \<Rightarrow> u32 \<Rightarrow> u32 \<Rightarrow> nat \<Rightarrow> sys \<Rightarrow> (nat \<times> sys) option" where
  "delayMs_loop irq start ms k s =
     (let (now, s1) = vread TickCount s
      in if now - start < ms
         then delayMs_loop irq start ms (Suc k) (interrupts (irq (Suc k)) (asm Nop s1))
         else Some (k, s1))"

definition delayMs :: "(nat \<Rightarrow> nat) \<Rightarrow> u32 \<Rightarrow> sys \<Rightarrow> (nat \<times> sys) option" where
  "delayMs irq ms s =
     (let (start, s1) = vread TickCount s
      in delayMs_loop irq start ms 0 (interrupts (irq 0) s1))"

text \<open>
  An execution of the firmware, seen from the tick counter: a sequence of calls of the
  returning operations of \<open>System\<close>, interleaved with SysTick interrupts. Interrupts
  arrive while \<open>delayMs\<close> runs, so it enters an execution step by step: \<open>DelayMs_read\<close>
  is one read of the counter by \<open>delayMs\<close> (of \<open>start\<close>, or for a test of the loop
  condition) and \<open>DelayMs_nop\<close> one pass through the loop body.
\<close>

datatype op = Irq_SysTick | Call_init | Call_getTicks | Call_delayUs u32
  | Call_getSystemClock | Call_sleep | Call_deepSleep | Call_getUniqueId "u32 list"
  | Call_enablePeripheralClock u32 | Call_disablePeripheralClock u32
  | DelayMs_read | DelayMs_nop

fun exec :: "op \<Rightarrow> sys \<Rightarrow> sys" where
  "exec Irq_SysTick s = SysTick_Handler s"
| "exec Call_init s = snd (init s)"
| "exec Call_getTicks s = snd (getTicks s)"
| "exec (Call_delayUs us) s = delayUs us s"
| "exec Call_getSystemClock s = s"
| "exec Call_sleep s = sleep s"
| "exec Call_deepSleep s = deepSleep s"
| "exec (Call_getUniqueId id0) s = snd (getUniqueId id0 s)"
| "exec (Call_enablePeripheralClock p) s = snd (enablePeripheralClock p s)"
| "exec (Call_disablePeripheralClock p) s = snd (disablePeripheralClock p s)"
| "exec DelayMs_read s = snd (vread TickCount s)"
| "exec DelayMs_nop s = asm Nop s"

fun run :: "op list \<Rightarrow> sys \<Rightarrow> sys" where
  "run [] s = s"
| "run (x # xs) s = run xs (exec x s)"

section \<open>Critical section (include/types.hpp)\<close>

text \<open>
  PRIMASK is a one-bit register: \<^verbatim>\<open>mrs\<close> reads it zero-extended, \<^verbatim>\<open>cpsid i\<close> sets it,
  and \<^verbatim>\<open>msr\<close> writes bit 0 of the operand to it.
\<close>

record cpu =
  primask :: bool

definition disableInterrupts :: "cpu \<Rightarrow> u32 \<times> cpu" where
  "disableInterrupts c =
     (let primask_v = (if primask c then 1 else 0);
          c1 = c\<lparr>primask := True\<rparr>
      in (primask_v, c1))"

definition restoreInterrupts :: "u32 \<Rightarrow> cpu \<Rightarrow> cpu" where
  "restoreInterrupts primask_v c = c\<lparr>primask := bit primask_v 0\<rparr>"

record CriticalSection =
  m_primask :: u32

definition CriticalSection_ctor :: "cpu \<Rightarrow> CriticalSection \<times> cpu" where
  "CriticalSection_ctor c = (let (p, c1) = disableInterrupts c in (\<lparr>m_primask = p\<rparr>, c1))"

definition CriticalSection_dtor :: "CriticalSection \<Rightarrow> cpu \<Rightarrow> cpu" where
  "CriticalSection_dtor g c = restoreInterrupts (m_primask g) c"

text \<open>
  Two nested scopes, each opened by a guard: the states after the outer constructor, the
  inner constructor, the inner destructor and the outer destructor.
\<close>

definition nested_guards :: "cpu \<Rightarrow> cpu \<times> cpu \<times> cpu \<times> cpu" where
  "nested_guards c0 =
     (let (outer, c1) = CriticalSection_ctor c0;
          (inner, c2) = CriticalSection_ctor c1;
          c3 = CriticalSection_dtor inner c2;
          c4 = CriticalSection_dtor outer c3
      in (c1, c2, c3, c4))"

section \<open>Startup (src/startup.cpp)\<close>

text \<open>
  The vector table holds symbols: the address of the stack top, null entries and
  handlers. Weak aliases are resolved by the linker, so a handler entry is the name the
  source writes.
\<close>

datatype vector = Estack | Nullptr | Fn string

definition g_pfnVectors :: "vector list" where
  "g_pfnVectors =
     [Estack,
      Fn ''Reset_Handler'', Fn ''NMI_Handler'', Fn ''HardFault_Handler'', Fn ''MemManage_Handler'',
      Fn ''BusFault_Handler'', Fn ''UsageFault_Handler'', Nullptr, Nullptr, Nullptr,
      Nullptr, Fn ''SVC_Handler'', Fn ''DebugMon_Handler'', Nullptr, Fn ''PendSV_Handler'',
      Fn ''SysTick_Handler'',
      Fn ''WWDG_IRQHandler'', Fn ''PVD_IRQHandler'', Fn ''TAMP_STAMP_IRQHandler'',
      Fn ''RTC_WKUP_IRQHandler'', Fn ''FLASH_IRQHandler'', Fn ''RCC_IRQHandler'',
      Fn ''EXTI0_IRQHandler'', Fn ''EXTI1_IRQHandler'', Fn ''EXTI2_IRQHandler'',
      Fn ''EXTI3_IRQHandler'', Fn ''EXTI4_IRQHandler'',
      Fn ''DMA1_Stream0_IRQHandler'', Fn ''DMA1_Stream1_IRQHandler'', Fn ''DMA1_Stream2_IRQHandler'',
      Fn ''DMA1_Stream3_IRQHandler'', Fn ''DMA1_Stream4_IRQHandler'', Fn ''DMA1_Stream5_IRQHandler'',
      Fn ''DMA1_Stream6_IRQHandler'', Fn ''ADC_IRQHandler'',
      Nullptr, Nullptr, Nullptr, Nullptr,
      Fn ''EXTI9_5_IRQHandler'', Fn ''TIM1_BRK_TIM9_IRQHandler'', Fn ''TIM1_UP_TIM10_IRQHandler'',
      Nullptr, Nullptr,
      Fn ''TIM2_IRQHandler'', Fn ''TIM3_IRQHandler'', Fn ''TIM4_IRQHandler'',
      Fn ''I2C1_EV_IRQHandler'', Fn ''I2C1_ER_IRQHandler'', Fn ''I2C2_EV_IRQHandler'',
      Fn ''I2C2_ER_IRQHandler'', Fn ''SPI1_IRQHandler'', Fn ''SPI2_IRQHandler'',
      Fn ''USART1_IRQHandler'', Fn ''USART2_IRQHandler'', Fn ''USART3_IRQHandler'']"

text \<open>
  \<open>Reset_Handler\<close> walks memory with \<^verbatim>\<open>uint32_t*\<close> pointers, so an address here is the
  index of a 32-bit cell: \<^verbatim>\<open>dst++\<close> is \<open>Suc dst\<close> and pointers compare as indices.
  The linker symbols the handler consumes are fields of \<open>image\<close> (the leading underscore
  of the source's names is dropped); the two constructor arrays are the lists of function
  pointers between their start and end symbols.
\<close>

type_synonym memory = "nat \<Rightarrow> u32"
type_synonym fnptr = nat

record image =
  sidata :: nat
  sdata :: nat
  edata :: nat
  sbss :: nat
  ebss :: nat
  preinit_array :: "fnptr list"
  init_array :: "fnptr list"

text \<open>
  What the handler does besides writing memory is calling code and spinning; \<open>calls\<close>
  keeps these events in program order. The code behind a function pointer, and \<open>main\<close>,
  are parameters: a function on memory that may fail to return (\<open>None\<close>). A call is
  logged when it is made; if the callee does not return, the handler hangs there.
\<close>

datatype boot_event = Call_ctor fnptr | Call_main | Spin_nop

record machine =
  mem :: memory
  calls :: "boot_event list"

function copy_data :: "nat \<Rightarrow> nat \<Rightarrow> nat \<Rightarrow> memory \<Rightarrow> memory" where
  "copy_data src dst e m =
     (if dst < e then copy_data (Suc src) (Suc dst) e (m(dst := m src)) else m)"
  by pat_completeness auto
termination
  by (relation "measure (\<lambda>(src, dst, e, m). e - dst)") auto

declare copy_data.simps [simp del]

function zero_bss :: "nat \<Rightarrow> nat \<Rightarrow> memory \<Rightarrow> memory" where
  "zero_bss dst e m = (if dst < e then zero_bss (Suc dst) e (m(dst := 0)) else m)"
  by pat_completeness auto
termination
  by (relation "measure (\<lambda>(dst, e, m). e - dst)") auto

declare zero_bss.simps [simp del]

fun run_array :: "(fnptr \<Rightarrow> memory \<Rightarrow> memory option) \<Rightarrow> fnptr list \<Rightarrow> machine \<Rightarrow> machine outcome" where
  "run_array code [] M = Returned M"
| "run_array code (p # ps) M =
     (let M1 = M\<lparr>calls := calls M @ [Call_ctor p]\<rparr>
      in case code p (mem M1) of
           None \<Rightarrow> Hang M1
         | Some m' \<Rightarrow> run_array code ps (M1\<lparr>mem := m'\<rparr>))"

definition call_main :: "(memory \<Rightarrow> memory option) \<Rightarrow> machine \<Rightarrow> machine outcome" where
  "call_main main_fn M =
     (let M1 = M\<lparr>calls := calls M @ [Call_main]\<rparr>
      in case main_fn (mem M1) of
           None \<Rightarrow> Hang M1
         | Some m' \<Rightarrow> Returned (M1\<lparr>mem := m'\<rparr>))"

text \<open>
  The final loop of the handler has no exit: after any number of passes through its body
  the handler is still in it.
\<close>

definition nop_step :: "machine \<Rightarrow> machine" where
  "nop_step M = M\<lparr>calls := calls M @ [Spin_nop]\<rparr>"

fun spin :: "nat \<Rightarrow> machine \<Rightarrow> machine outcome" where
  "spin 0 M = Spinning M"
| "spin (Suc n) M = spin n (nop_step M)"

text \<open>
  The handler, with the number of passes through its final loop that are looked at.
\<close>

definition Reset_Handler ::
    "nat \<Rightarrow> image \<Rightarrow> (fnptr \<Rightarrow> memory \<Rightarrow> memory option) \<Rightarrow> (memory \<Rightarrow> memory option)
      \<Rightarrow> machine \<Rightarrow> machine outcome" where
  "Reset_Handler n L code main_fn M =
     (let M1 = M\<lparr>mem := copy_data (sidata L) (sdata L) (edata L) (mem M)\<rparr>;
          M2 = M1\<lparr>mem := zero_bss (sbss L) (ebss L) (mem M1)\<rparr>
      in case run_array code (preinit_array L) M2 of
           Returned M3 \<Rightarrow>
             (case run_array code (init_array L) M3 of
                Returned M4 \<Rightarrow>
                  (case call_main main_fn M4 of
                     Returned M5 \<Rightarrow> spin n M5
                   | Hang M' \<Rightarrow> Hang M'
                   | Spinning M' \<Rightarrow> Spinning M')
              | Hang M' \<Rightarrow> Hang M'
              | Spinning M' \<Rightarrow> Spinning M')
         | Hang M' \<Rightarrow> Hang M'
         | Spinning M' \<Rightarrow> Spinning M')"

section \<open>UART transmit ring buffer (hal/uart.hpp)\<close>

text \<open>
  uart.hpp declares the buffer and its two indices; the member functions are declared
  there and defined nowhere in the sources at hand.
\<close>

record UART =
  m_txBuffer :: "u8 list"
  m_txHead :: u16
  m_txTail :: u16
  txe_irq_enabled :: bool
  data_register :: "u8 list"



definition tx_full :: "UART \<Rightarrow> bool" where
  "tx_full u \<longleftrightarrow> (m_txHead u + 1) mod of_nat UART_BUFFER_SIZE = m_txTail u"

text \<open>
  Modelled from the spec: the producer side of the ring, which is missing. A byte is
  stored at \<open>head\<close> and \<open>head\<close> advances modulo \<open>N\<close>.
\<close>

definition tx_push :: "u8 \<Rightarrow> UART \<Rightarrow> UART" where
  "tx_push b u = u\<lparr>m_txBuffer := (m_txBuffer u)[unat (m_txHead u) := b],
                   m_txHead := (m_txHead u + 1) mod of_nat UART_BUFFER_SIZE\<rparr>"

text \<open>
  Modelled from the spec: the enqueuing of a byte sequence, which is missing. The bytes
  are pushed in order; the sequence is accepted only if every byte finds room.
\<close>

fun tx_enqueue :: "u8 list \<Rightarrow> UART \<Rightarrow> UART option" where
  "tx_enqueue [] u = Some u"
| "tx_enqueue (b # bs) u = (if tx_full u then None else tx_enqueue bs (tx_push b u))"




text \<open>The bytes put into the ring and not yet taken out: their number, and the bytes.\<close>

definition tx_count :: "UART \<Rightarrow> nat" where
  "tx_count u =
     (unat (m_txHead u) + UART_BUFFER_SIZE - unat (m_txTail u)) mod UART_BUFFER_SIZE"

definition tx_pending :: "UART \<Rightarrow> u8 list" where
  "tx_pending u =
     map (\<lambda>i. m_txBuffer u ! ((unat (m_txTail u) + i) mod UART_BUFFER_SIZE)) [0..<tx_count u]"





text \<open>The shape every \<open>UART\<close> object keeps: a buffer of \<open>N\<close> bytes and indices below \<open>N\<close>.\<close>

definition tx_wf :: "UART \<Rightarrow> bool" where
  "tx_wf u \<longleftrightarrow> length (m_txBuffer u) = UART_BUFFER_SIZE
     \<and> unat (m_txHead u) < UART_BUFFER_SIZE \<and> unat (m_txTail u) < UART_BUFFER_SIZE"


section \<open>Auxiliary notions for the delay loop\<close>

text \<open>
  The state in which \<open>delayMs\<close> tests its loop condition for the \<open>k\<close>-th time
  (counting from 0), and the number of SysTick interrupts taken between the read of
  \<open>start\<close> and that test, as the 32-bit value the subtraction \<open>now - start\<close> yields.
\<close>

primrec poll_state :: "(nat \<Rightarrow> nat) \<Rightarrow> sys \<Rightarrow> nat \<Rightarrow> sys" where
  "poll_state irq s 0 = interrupts (irq 0) (snd (vread TickCount s))"
| "poll_state irq s (Suc k) =
     interrupts (irq (Suc k)) (asm Nop (snd (vread TickCount (poll_state irq s k))))"

definition elapsed :: "(nat \<Rightarrow> nat) \<Rightarrow> nat \<Rightarrow> u32" where
  "elapsed irq k = of_nat (\<Sum>j\<le>k. irq j)"

text \<open>
  A tick source that advances the counter once per iteration of the loop body, and not
  before the first test.
\<close>

definition one_tick_per_iteration :: "nat \<Rightarrow> nat" where
  "one_tick_per_iteration j = (if j = 0 then 0 else 1)"

text \<open>
  The steps of an execution that \<open>delayMs\<close> and the interrupts preempting it make from
  its call up to its \<open>k\<close>-th test of the loop condition.
\<close>

primrec delayMs_ops :: "(nat \<Rightarrow> nat) \<Rightarrow> nat \<Rightarrow> op list" where
  "delayMs_ops irq 0 = DelayMs_read # replicate (irq 0) Irq_SysTick"
| "delayMs_ops irq (Suc k) =
     delayMs_ops irq k @ [DelayMs_read, DelayMs_nop] @ replicate (irq (Suc k)) Irq_SysTick"

section \<open>Auxiliary notions for the tick counter\<close>

text \<open>The events that write the tick counter.\<close>

fun is_tick_write :: "event \<Rightarrow> bool" where
  "is_tick_write (Write TickCount v) = True"
| "is_tick_write e = False"

section \<open>Concrete inputs\<close>

text \<open>A system state with every register word all ones, for evaluating the operations.\<close>

definition sys0 :: sys where
  "sys0 = \<lparr>s_tickCount = 5, regs = (\<lambda>a. 0xFFFFFFFF), trace = []\<rparr>"

text \<open>A system state whose tick counter is 16 ticks before the wrap-around.\<close>

definition sys_wrap :: sys where
  "sys_wrap = \<lparr>s_tickCount = 0xFFFFFFF0, regs = (\<lambda>a. 0), trace = []\<rparr>"

text \<open>
  A stub image: one word of initialised data, loaded at cell 0 and run at cell 4, two
  words (8 bytes) of bss behind it, one pre-init constructor and two init constructors.
  The memory holds the data word 0xDEADBEEF at the load address and all ones elsewhere.
\<close>

definition stub_image :: image where
  "stub_image = \<lparr>sidata = 0, sdata = 4, edata = 5, sbss = 5, ebss = 7,
     preinit_array = [100], init_array = [101, 102]\<rparr>"

definition stub_machine :: machine where
  "stub_machine = \<lparr>mem = (\<lambda>a. if a = 0 then 0xDEADBEEF else 0xFFFFFFFF), calls = []\<rparr>"

text \<open>
  Code for the stub image: a constructor that marks the cell numbered like itself, a
  \<open>main\<close> that marks cell 200 and returns, and a \<open>main\<close> that never returns, as the
  repository's own \<open>main\<close>, whose loop has no exit.
\<close>

definition stub_code :: "fnptr \<Rightarrow> memory \<Rightarrow> memory option" where
  "stub_code p m = Some (m(p := 1))"

definition stub_main :: "memory \<Rightarrow> memory option" where
  "stub_main m = Some (m(200 := 7))"

definition endless_main :: "memory \<Rightarrow> memory option" where
  "endless_main m = None"

section \<open>Reported clock frequency\<close>

text \<open>
  C10: \<open>getSystemClock\<close> returns the constant 168000000 in every state; \<open>initClocks\<close>
  changes nothing, and neither \<open>init\<close> nor any sequence of operations and interrupts
  changes the reported frequency.
\<close>

theorem getSystemClock_constant:
  "getSystemClock s = 168000000
   \<and> initClocks s = s
   \<and> getSystemClock (snd (init s)) = 168000000
   \<and> getSystemClock (run xs s) = 168000000"
  by (simp add: getSystemClock_def SYSTEM_CLOCK_HZ_def initClocks_def)

section \<open>SysTick programming by \<open>init\<close>\<close>

text \<open>
  C5: \<open>init\<close> returns \<open>Ok\<close>, having written the reload register (0xE000E014) with
  \<open>(168000000 / 1000) - 1 = 167999\<close>, cleared the current-value register (0xE000E018) and
  written the control register (0xE000E010) with bits 0 (enable), 1 (interrupt) and 2
  (processor clock) set, in this order, before the priority grouping is written.
\<close>

theorem init_programs_SysTick:
  "fst (init s) = Ok
   \<and> regs (snd (init s)) 0xE000E014 = 167999
   \<and> (167999 :: u32) = SYSTEM_CLOCK_HZ div 1000 - 1
   \<and> SYSTEM_CLOCK_HZ = 168000000
   \<and> regs (snd (init s)) 0xE000E018 = 0
   \<and> regs (snd (init s)) 0xE000E010 = 7
   \<and> bit (regs (snd (init s)) 0xE000E010) 0
   \<and> bit (regs (snd (init s)) 0xE000E010) 1
   \<and> bit (regs (snd (init s)) 0xE000E010) 2
   \<and> trace (snd (init s)) = trace s @
        [Write (Reg 0xE000E014) 167999, Write (Reg 0xE000E018) 0, Write (Reg 0xE000E010) 7,
         Write (Reg 0xE000ED0C) 0x05FA0300]"
  by (simp add: init_def initNvic_def initSysTick_def initClocks_def SYSTEM_CLOCK_HZ_def
      TICK_RATE_HZ_def SYST_RVR_def SYST_CVR_def SYST_CSR_def AIRCR_def Let_def)

section \<open>Nested critical sections\<close>

text \<open>
  C3: for every starting PRIMASK value, interrupts are masked after each constructor and
  still masked after the inner guard's destructor (it restores the outer guard's state,
  not the enabled state), and after the outer guard's destructor the mask is what it was
  before the outer guard was entered.
\<close>

theorem nested_guards_restore:
  "(case nested_guards c0 of (c1, c2, c3, c4) \<Rightarrow>
      primask c1 \<and> primask c2 \<and> primask c3 \<and> primask c4 = primask c0 \<and> c4 = c0)"
  by (simp add: nested_guards_def CriticalSection_ctor_def CriticalSection_dtor_def
      disableInterrupts_def restoreInterrupts_def Let_def)

section \<open>Deep sleep\<close>

lemma bit_four: "bit (4 :: u32) n \<longleftrightarrow> n = 2"
proof -
  have "(4 :: u32) = 2 ^ 2" by simp
  then show ?thesis by (simp only: bit_exp_iff) auto
qed

lemma set_clear_bit2: "((w :: u32) OR 4) AND NOT 4 = w AND NOT 4"
  by (rule bit_eqI) (auto simp: bit_simps bit_four)

lemma deepSleep_regs: "regs (deepSleep s) = (regs s)(SCR := (regs s SCR OR 4) AND NOT 4)"
  by (simp add: deepSleep_def asm_def Let_def)

lemma deepSleep_trace:
  "trace (deepSleep s) = trace s @
     [Read (Reg SCR), Write (Reg SCR) (regs s SCR OR 4), Dsb, Wfi,
      Read (Reg SCR), Write (Reg SCR) ((regs s SCR OR 4) AND NOT 4)]"
  by (simp add: deepSleep_def asm_def Let_def)

lemma deepSleep_tick: "s_tickCount (deepSleep s) = s_tickCount s"
  by (simp add: deepSleep_def asm_def Let_def)

text \<open>
  C8: \<open>deepSleep\<close> writes SCR (0xE000ED10) with bit 2 set and the other bits as they
  were, then issues the barrier and the wait-for-interrupt, then writes SCR with bit 2
  cleared; on return bit 2 of SCR is 0, every other bit of SCR has the value it had
  before the call, and no other register and not the tick counter has changed.
\<close>

theorem deepSleep_SCR:
  "SCR = 0xE000ED10
   \<and> trace (deepSleep s) = trace s @
        [Read (Reg SCR), Write (Reg SCR) (regs s SCR OR 4), Dsb, Wfi,
         Read (Reg SCR), Write (Reg SCR) (regs s SCR AND NOT 4)]
   \<and> bit (regs s SCR OR 4) 2
   \<and> (\<forall>n. n \<noteq> 2 \<longrightarrow> bit (regs s SCR OR 4) n = bit (regs s SCR) n)
   \<and> \<not> bit (regs (deepSleep s) SCR) 2
   \<and> (\<forall>n. n \<noteq> 2 \<longrightarrow> bit (regs (deepSleep s) SCR) n = bit (regs s SCR) n)
   \<and> (\<forall>a. a \<noteq> SCR \<longrightarrow> regs (deepSleep s) a = regs s a)
   \<and> s_tickCount (deepSleep s) = s_tickCount s"
proof -
  have a: "SCR = 0xE000ED10" by (simp add: SCR_def)
  have b: "trace (deepSleep s) = trace s @
        [Read (Reg SCR), Write (Reg SCR) (regs s SCR OR 4), Dsb, Wfi,
         Read (Reg SCR), Write (Reg SCR) (regs s SCR AND NOT 4)]"
    by (simp only: deepSleep_trace set_clear_bit2)
  have c: "bit (regs s SCR OR 4) 2"
    by (simp add: bit_or_iff bit_four)
  have d: "\<forall>n. n \<noteq> 2 \<longrightarrow> bit (regs s SCR OR 4) n = bit (regs s SCR) n"
    by (simp only: bit_or_iff bit_four) blast
  have r: "regs (deepSleep s) SCR = regs s SCR AND NOT 4"
    by (simp only: deepSleep_regs fun_upd_same set_clear_bit2)
  have e: "\<not> bit (regs (deepSleep s) SCR) 2"
    by (simp only: r bit_and_iff bit_not_iff bit_four) simp
  have f: "\<forall>n. n \<noteq> 2 \<longrightarrow> bit (regs (deepSleep s) SCR) n = bit (regs s SCR) n"
    by (simp only: r bit_and_iff bit_not_iff bit_four) (auto dest: bit_imp_possible_bit)
  have g: "\<forall>a. a \<noteq> SCR \<longrightarrow> regs (deepSleep s) a = regs s a"
    by (simp add: deepSleep_regs)
  from a b c d e f g deepSleep_tick show ?thesis by blast
qed

theorem deepSleep_SCR_witness:
  "regs (deepSleep sys0) SCR = 0xFFFFFFFB \<and> regs (deepSleep sys0) AIRCR = 0xFFFFFFFF
   \<and> bit (regs (deepSleep sys0) SCR) 3 \<and> \<not> bit (regs (deepSleep sys0) SCR) 2"
  using deepSleep_SCR [of sys0]
  by (simp add: sys0_def deepSleep_regs SCR_def AIRCR_def)

section \<open>Device identifier\<close>

text \<open>
  C9: \<open>getUniqueId\<close> reads the three words at 0x1FFF7A10, 0x1FFF7A14 and 0x1FFF7A18, in
  ascending address order, and stores them in elements 0, 1 and 2 of the caller's array;
  the rest of the array, the registers and the tick counter are unchanged.
\<close>

theorem getUniqueId_copies:
  "3 \<le> length id0 \<Longrightarrow>
   (case getUniqueId id0 s of (id', s') \<Rightarrow>
      take 3 id' = [regs s 0x1FFF7A10, regs s 0x1FFF7A14, regs s 0x1FFF7A18]
      \<and> drop 3 id' = drop 3 id0
      \<and> length id' = length id0
      \<and> regs s' = regs s
      \<and> s_tickCount s' = s_tickCount s
      \<and> trace s' = trace s @
           [Read (Reg 0x1FFF7A10), Read (Reg 0x1FFF7A14), Read (Reg 0x1FFF7A18)])"
proof -
  assume "3 \<le> length id0"
  then obtain a b c rest where id0: "id0 = a # b # c # rest"
    by (metis Suc_le_length_iff numeral_3_eq_3)
  show ?thesis
    by (simp add: id0 getUniqueId_def UID_BASE_def Let_def)
qed

theorem getUniqueId_copies_witness:
  "3 \<le> length [1, 2, 3, 4 :: u32]
   \<and> fst (getUniqueId [1, 2, 3, 4] sys0) = [0xFFFFFFFF, 0xFFFFFFFF, 0xFFFFFFFF, 4]"
  using getUniqueId_copies [of "[1, 2, 3, 4]" sys0]
  by (simp add: sys0_def getUniqueId_def UID_BASE_def Let_def)

section \<open>Microsecond busy-wait\<close>

lemma delayUs_loop_zero: "delayUs_loop 0 s = s"
  by (subst delayUs_loop.simps) simp

lemma delayUs_loop_step: "c \<noteq> 0 \<Longrightarrow> delayUs_loop c s = delayUs_loop (c - 1) (asm Nop s)"
  by (subst delayUs_loop.simps) simp

lemma delayUs_loop_trace: "trace (delayUs_loop c s) = trace s @ replicate (unat c) Nop"
proof (induction c s rule: delayUs_loop.induct)
  case (1 cycles s)
  show ?case
  proof (cases "cycles = 0")
    case True
    then show ?thesis by (simp add: delayUs_loop_zero)
  next
    case False
    then have pos: "0 < unat cycles" by (simp add: unat_gt_0)
    have "trace (delayUs_loop cycles s) = trace (delayUs_loop (cycles - 1) (asm Nop s))"
      using False by (simp add: delayUs_loop_step)
    also have "\<dots> = trace (asm Nop s) @ replicate (unat (cycles - 1)) Nop"
      using "1" False by simp
    also have "\<dots> = trace s @ replicate (Suc (unat (cycles - 1))) Nop"
      by (simp add: asm_def replicate_app_Cons_same)
    also have "Suc (unat (cycles - 1)) = unat cycles"
      using False pos by (simp add: unat_minus_one)
    finally show ?thesis .
  qed
qed

lemma delayUs_loop_frame:
  "s_tickCount (delayUs_loop c s) = s_tickCount s \<and> regs (delayUs_loop c s) = regs s"
proof (induction c s rule: delayUs_loop.induct)
  case (1 cycles s)
  show ?case
  proof (cases "cycles = 0")
    case True
    then show ?thesis by (simp add: delayUs_loop_zero)
  next
    case False
    with "1" show ?thesis by (simp add: delayUs_loop_step asm_def)
  qed
qed

lemma delayUs_trace: "trace (delayUs us s) = trace s @ replicate (unat (delayUs_cycles us)) Nop"
  by (simp add: delayUs_def delayUs_loop_trace)

lemma delayUs_cycles_small:
  assumes "us \<le> 25565281"
  shows "unat (delayUs_cycles us) = 42 * unat us"
proof -
  have b: "unat us \<le> 25565281" using assms by (simp add: word_le_nat_alt)
  then have lt: "unat (168 :: u32) * unat us < 2 ^ LENGTH(32)" by simp
  have "unat (168 * us) = unat (168 :: u32) * unat us"
    using lt by (simp only: unat_mult_lem [THEN iffD1])
  then have "unat (168 * us div 4) = (168 * unat us) div 4"
    by (simp add: unat_div)
  then show ?thesis
    by (simp add: delayUs_cycles_def SYSTEM_CLOCK_HZ_def)
qed

lemma delayUs_monotone_small:
  "us1 \<le> us2 \<Longrightarrow> us2 \<le> 25565281 \<Longrightarrow> delayUs_cycles us1 \<le> delayUs_cycles us2"
  by (simp add: word_le_nat_alt delayUs_cycles_small)

text \<open>
  C6: the claim says that the number of wait iterations of \<open>delayUs\<close> grows with its
  argument. The product \<open>168 * us\<close> is computed in 32 bits and wraps, so it does not:
  \<open>delayUs 25565281\<close> executes 1073741802 no-ops and \<open>delayUs 102261127\<close>, a longer
  delay, executes 38.
\<close>

theorem delayUs_overflow:
  "(25565281 :: u32) \<le> 102261127
   \<and> trace (delayUs 25565281 s) = trace s @ replicate 1073741802 Nop
   \<and> trace (delayUs 102261127 s) = trace s @ replicate 38 Nop"
  by (simp add: delayUs_trace delayUs_cycles_def SYSTEM_CLOCK_HZ_def)

section \<open>The tick counter\<close>

lemma SysTick_Handler_tick: "s_tickCount (SysTick_Handler s) = s_tickCount s + 1"
  by (simp add: SysTick_Handler_def)

lemma SysTick_Handler_regs: "regs (SysTick_Handler s) = regs s"
  by (simp add: SysTick_Handler_def)

lemma SysTick_Handler_trace:
  "trace (SysTick_Handler s) = trace s @ [Read TickCount, Write TickCount (s_tickCount s + 1)]"
  by (simp add: SysTick_Handler_def)

lemma interrupts_tick: "s_tickCount (interrupts n s) = s_tickCount s + of_nat n"
  by (induction n) (simp_all add: interrupts_def SysTick_Handler_tick)

lemma interrupts_regs: "regs (interrupts n s) = regs s"
  by (induction n) (simp_all add: interrupts_def SysTick_Handler_regs)

lemma exec_tick: "x \<noteq> Irq_SysTick \<Longrightarrow> s_tickCount (exec x s) = s_tickCount s"
  by (cases x)
    (simp_all add: init_def initNvic_def initSysTick_def initClocks_def Let_def getTicks_def
      delayUs_def delayUs_loop_frame sleep_def asm_def deepSleep_def getUniqueId_def
      enablePeripheralClock_def disablePeripheralClock_def)

lemma run_tick: "s_tickCount (run xs s) = s_tickCount s + of_nat (count_list xs Irq_SysTick)"
proof (induction xs arbitrary: s)
  case Nil
  then show ?case by simp
next
  case (Cons x xs)
  show ?case
  proof (cases "x = Irq_SysTick")
    case True
    then show ?thesis by (simp add: Cons SysTick_Handler_tick)
  next
    case False
    then show ?thesis by (simp add: Cons exec_tick)
  qed
qed

lemma no_wrap_le: "unat (t :: u32) + n < 2 ^ 32 \<Longrightarrow> t \<le> t + of_nat n"
proof -
  assume a: "unat t + n < 2 ^ 32"
  then have "n < 2 ^ 32" by simp
  then have "unat (of_nat n :: u32) = n" by (simp add: unat_of_nat)
  with a show ?thesis by (simp add: no_olen_add_nat)
qed

lemma poll_state_tick: "s_tickCount (poll_state irq s k) = s_tickCount s + elapsed irq k"
  by (induction k) (simp_all add: interrupts_tick asm_def elapsed_def)

lemma poll_state_regs: "regs (poll_state irq s k) = regs s"
  by (induction k) (simp_all add: interrupts_regs asm_def)

lemma delayMs_loop_exit:
  "ms \<le> s_tickCount t - start \<Longrightarrow>
   delayMs_loop irq start ms k t = Some (k, snd (vread TickCount t))"
  by (rule trans, rule delayMs_loop.simps) (simp add: leD)

lemma delayMs_loop_cont:
  "s_tickCount t - start < ms \<Longrightarrow>
   delayMs_loop irq start ms k t =
   delayMs_loop irq start ms (Suc k) (interrupts (irq (Suc k)) (asm Nop (snd (vread TickCount t))))"
  by (rule trans, rule delayMs_loop.simps) simp

lemma delayMs_loop_unroll:
  "(\<forall>j<n. s_tickCount (poll_state irq s (k + j)) - start < ms) \<Longrightarrow>
   delayMs_loop irq start ms k (poll_state irq s k) =
   delayMs_loop irq start ms (k + n) (poll_state irq s (k + n))"
proof (induction n)
  case 0
  then show ?case by simp
next
  case (Suc n)
  from Suc.prems have lt: "s_tickCount (poll_state irq s (k + n)) - start < ms"
    by simp
  from Suc have "delayMs_loop irq start ms k (poll_state irq s k) =
      delayMs_loop irq start ms (k + n) (poll_state irq s (k + n))"
    by simp
  also have "\<dots> = delayMs_loop irq start ms (Suc (k + n)) (poll_state irq s (Suc (k + n)))"
    by (simp only: delayMs_loop_cont [OF lt] poll_state.simps)
  finally show ?case by simp
qed

lemma delayMs_loop_never_aux:
  assumes all: "\<forall>j. s_tickCount (poll_state irq s j) - start < ms"
    and some: "delayMs_loop irq0 start0 ms0 k0 t0 = Some r0"
  shows "\<not> (irq0 = irq \<and> start0 = start \<and> ms0 = ms \<and> t0 = poll_state irq s k0)"
proof (rule delayMs_loop.raw_induct
    [where P = "\<lambda>irq' start' ms' k' t r'.
        \<not> (irq' = irq \<and> start' = start \<and> ms' = ms \<and> t = poll_state irq s k')",
     OF _ some])
  fix f irq' start' ms' k' t r'
  assume IH: "\<And>irq' start' ms' k' t r'. f irq' start' ms' k' t = Some r' \<Longrightarrow>
          \<not> (irq' = irq \<and> start' = start \<and> ms' = ms \<and> t = poll_state irq s k')"
    and body: "(let (now, s1) = vread TickCount t
         in if now - start' < ms'
            then f irq' start' ms' (Suc k') (interrupts (irq' (Suc k')) (asm Nop s1))
            else Some (k', s1)) = Some r'"
  show "\<not> (irq' = irq \<and> start' = start \<and> ms' = ms \<and> t = poll_state irq s k')"
  proof
    assume eq: "irq' = irq \<and> start' = start \<and> ms' = ms \<and> t = poll_state irq s k'"
    then have lt: "s_tickCount t - start' < ms'" using all by simp
    have v: "vread TickCount t = (s_tickCount t, snd (vread TickCount t))" by simp
    from body lt have
      "f irq' start' ms' (Suc k') (interrupts (irq' (Suc k')) (asm Nop (snd (vread TickCount t)))) = Some r'"
      by (subst (asm) v) (simp only: Let_def split if_True)
    with eq have "f irq start ms (Suc k') (poll_state irq s (Suc k')) = Some r'"
      by (simp only: poll_state.simps)
    from IH [OF this] show False by simp
  qed
qed

lemma delayMs_loop_never:
  assumes all: "\<forall>j. s_tickCount (poll_state irq s j) - start < ms"
  shows "delayMs_loop irq start ms k (poll_state irq s k) = None"
proof (cases "delayMs_loop irq start ms k (poll_state irq s k)")
  case None
  then show ?thesis .
next
  case (Some r)
  from delayMs_loop_never_aux [OF all Some] show ?thesis by simp
qed

lemma delayMs_unfold:
  "delayMs irq ms s = delayMs_loop irq (s_tickCount s) ms 0 (poll_state irq s 0)"
  by (simp add: delayMs_def)

lemma poll_state_diff: "s_tickCount (poll_state irq s k) - s_tickCount s = elapsed irq k"
  by (simp add: poll_state_tick)

lemma delayMs_returns:
  assumes "ms \<le> elapsed irq k" and "\<forall>j<k. elapsed irq j < ms"
  shows "delayMs irq ms s = Some (k, snd (vread TickCount (poll_state irq s k)))"
proof -
  have "delayMs irq ms s = delayMs_loop irq (s_tickCount s) ms (0 + k) (poll_state irq s (0 + k))"
    unfolding delayMs_unfold
    by (rule delayMs_loop_unroll) (simp add: poll_state_diff assms(2))
  also have "\<dots> = Some (k, snd (vread TickCount (poll_state irq s k)))"
    by (simp add: delayMs_loop_exit poll_state_diff assms(1))
  finally show ?thesis .
qed

lemma delayMs_never:
  assumes "\<forall>j. elapsed irq j < ms"
  shows "delayMs irq ms s = None"
  unfolding delayMs_unfold
  by (rule delayMs_loop_never) (simp add: poll_state_diff assms)

lemma delayMs_Some:
  assumes "delayMs irq ms s = Some (k, s')"
  shows "ms \<le> elapsed irq k \<and> (\<forall>j<k. elapsed irq j < ms)
         \<and> s' = snd (vread TickCount (poll_state irq s k))"
proof -
  have "\<exists>j. ms \<le> elapsed irq j"
  proof (rule ccontr)
    assume "\<not> (\<exists>j. ms \<le> elapsed irq j)"
    then have "\<forall>j. elapsed irq j < ms" by (simp add: not_le)
    from delayMs_never [OF this] assms show False by simp
  qed
  then obtain j where j: "ms \<le> elapsed irq j" ..
  define n where "n = (LEAST j. ms \<le> elapsed irq j)"
  have n1: "ms \<le> elapsed irq n"
    unfolding n_def using j by (rule LeastI)
  have n2: "\<forall>i<n. elapsed irq i < ms"
    unfolding n_def using not_less_Least by (auto simp: not_le [symmetric])
  from delayMs_returns [OF n1 n2, of s] assms
  have "k = n" and "s' = snd (vread TickCount (poll_state irq s n))"
    by simp_all
  with n1 n2 show ?thesis by simp
qed

lemma elapsed_one_tick: "elapsed one_tick_per_iteration k = of_nat k"
proof -
  have "(\<Sum>j\<le>k. one_tick_per_iteration j) = k"
    by (induction k) (simp_all add: one_tick_per_iteration_def)
  then show ?thesis by (simp add: elapsed_def)
qed

lemma of_nat_less_u32: "j < unat (ms :: u32) \<Longrightarrow> (of_nat j :: u32) < ms"
proof -
  assume a: "j < unat ms"
  have "unat ms < 2 ^ 32" using unsigned_less [of ms] by simp
  with a have "j < 2 ^ 32" by simp
  then have "unat (of_nat j :: u32) = j" by (simp add: unat_of_nat)
  with a show ?thesis by (simp add: word_less_nat_alt)
qed

lemma delayMs_one_tick:
  "delayMs one_tick_per_iteration ms s =
     Some (unat ms, snd (vread TickCount (poll_state one_tick_per_iteration s (unat ms))))"
  by (rule delayMs_returns) (simp_all add: elapsed_one_tick of_nat_less_u32)

lemma reset_spin_eq: "reset_spin n s = Spinning (s\<lparr>trace := trace s @ replicate n Nop\<rparr>)"
proof (induction n arbitrary: s)
  case 0
  then show ?case by simp
next
  case (Suc n)
  show ?case
    by (simp add: Suc asm_def replicate_app_Cons_same)
qed

lemma reset_eq:
  "reset n s = Spinning (s\<lparr>regs := (regs s)(0xE000ED0C := 0x05FA0004),
      trace := trace s @ Write (Reg 0xE000ED0C) 0x05FA0004 # replicate n Nop\<rparr>)"
  by (simp add: reset_def reset_spin_eq AIRCR_def)

lemma init_trace:
  "trace (snd (init s)) = trace s @
     [Write (Reg SYST_RVR) 167999, Write (Reg SYST_CVR) 0, Write (Reg SYST_CSR) 7,
      Write (Reg AIRCR) 0x05FA0300]"
  by (simp add: init_def initNvic_def initSysTick_def initClocks_def SYSTEM_CLOCK_HZ_def
      TICK_RATE_HZ_def Let_def)

lemma getUniqueId_trace:
  "trace (snd (getUniqueId id0 s)) = trace s @
     [Read (Reg (UID_BASE + 4 * 0)), Read (Reg (UID_BASE + 4 * 1)), Read (Reg (UID_BASE + 4 * 2))]"
  by (simp add: getUniqueId_def Let_def)

lemma no_tick_write_replicate: "filter is_tick_write (replicate n Nop) = []"
  by (induction n) simp_all

lemma exec_trace:
  assumes "x \<noteq> Irq_SysTick"
  shows "\<exists>evs. trace (exec x s) = trace s @ evs \<and> filter is_tick_write evs = []"
proof (cases x)
  case Irq_SysTick
  with assms show ?thesis by simp
next
  case Call_init
  have "filter is_tick_write
     [Write (Reg SYST_RVR) 167999, Write (Reg SYST_CVR) 0, Write (Reg SYST_CSR) 7,
      Write (Reg AIRCR) 0x05FA0300] = []" by simp
  with Call_init init_trace [of s] show ?thesis by (simp del: append.simps)
next
  case Call_getTicks
  then show ?thesis by (simp add: getTicks_def)
next
  case (Call_delayUs us)
  with delayUs_trace [of us s] no_tick_write_replicate show ?thesis by simp
next
  case Call_getSystemClock
  then show ?thesis by simp
next
  case Call_sleep
  then show ?thesis by (simp add: sleep_def asm_def)
next
  case Call_deepSleep
  have "filter is_tick_write
     [Read (Reg SCR), Write (Reg SCR) (regs s SCR OR 4), Dsb, Wfi,
      Read (Reg SCR), Write (Reg SCR) ((regs s SCR OR 4) AND NOT 4)] = []" by simp
  with Call_deepSleep deepSleep_trace [of s] show ?thesis by (simp del: append.simps)
next
  case (Call_getUniqueId id0)
  have "filter is_tick_write
     [Read (Reg (UID_BASE + 4 * 0)), Read (Reg (UID_BASE + 4 * 1)), Read (Reg (UID_BASE + 4 * 2))]
     = []" by simp
  with Call_getUniqueId getUniqueId_trace [of id0 s] show ?thesis by (simp del: append.simps)
next
  case (Call_enablePeripheralClock p)
  then show ?thesis by (simp add: enablePeripheralClock_def)
next
  case (Call_disablePeripheralClock p)
  then show ?thesis by (simp add: disablePeripheralClock_def)
next
  case DelayMs_read
  then show ?thesis by simp
next
  case DelayMs_nop
  then show ?thesis by (simp add: asm_def)
qed

lemma run_trace:
  "\<exists>evs. trace (run xs s) = trace s @ evs
     \<and> length (filter is_tick_write evs) = count_list xs Irq_SysTick"
proof (induction xs arbitrary: s)
  case Nil
  then show ?case by simp
next
  case (Cons x xs)
  from Cons [of "exec x s"] obtain evs where
    r: "trace (run xs (exec x s)) = trace (exec x s) @ evs"
    and c: "length (filter is_tick_write evs) = count_list xs Irq_SysTick"
    by blast
  show ?case
  proof (cases "x = Irq_SysTick")
    case True
    with r c have "trace (run (x # xs) s) =
        trace s @ ([Read TickCount, Write TickCount (s_tickCount s + 1)] @ evs)
      \<and> length (filter is_tick_write ([Read TickCount, Write TickCount (s_tickCount s + 1)] @ evs))
          = count_list (x # xs) Irq_SysTick"
      by (simp add: SysTick_Handler_trace)
    then show ?thesis by blast
  next
    case False
    from exec_trace [OF False, of s] obtain e1 where
      e: "trace (exec x s) = trace s @ e1" and n: "filter is_tick_write e1 = []"
      by blast
    with r c False have "trace (run (x # xs) s) = trace s @ (e1 @ evs)
      \<and> length (filter is_tick_write (e1 @ evs)) = count_list (x # xs) Irq_SysTick"
      by simp
    then show ?thesis by blast
  qed
qed

lemma run_append: "run (xs @ ys) s = run ys (run xs s)"
  by (induction xs arbitrary: s) simp_all

lemma run_interrupts: "run (replicate n Irq_SysTick) s = interrupts n s"
proof (induction n arbitrary: s)
  case 0
  then show ?case by (simp add: interrupts_def)
next
  case (Suc n)
  have "interrupts (Suc n) s = interrupts n (SysTick_Handler s)"
    by (simp add: interrupts_def funpow_swap1)
  with Suc show ?case by simp
qed

lemma poll_state_run: "poll_state irq s k = run (delayMs_ops irq k) s"
  by (induction k) (simp_all add: run_append run_interrupts)

lemma delayMs_ops_count: "count_list (delayMs_ops irq k) Irq_SysTick = (\<Sum>j\<le>k. irq j)"
proof -
  have r: "count_list (replicate n Irq_SysTick) Irq_SysTick = n" for n
    by (induction n) simp_all
  show ?thesis by (induction k) (simp_all add: r)
qed

lemma delayMs_running:
  assumes "\<forall>j<k. elapsed irq j < ms"
  shows "delayMs irq ms s = delayMs_loop irq (s_tickCount s) ms k (run (delayMs_ops irq k) s)"
proof -
  have "delayMs irq ms s = delayMs_loop irq (s_tickCount s) ms (0 + k) (poll_state irq s (0 + k))"
    unfolding delayMs_unfold
    by (rule delayMs_loop_unroll) (simp add: poll_state_diff assms)
  then show ?thesis by (simp add: poll_state_run)
qed

lemma delayMs_final:
  assumes "delayMs irq ms s = Some (k, s')"
  shows "s' = run (delayMs_ops irq k @ [DelayMs_read]) s"
  using delayMs_Some [OF assms] by (simp add: run_append poll_state_run)

text \<open>
  C4: the SysTick handler adds 1 to the tick counter modulo \<open>2 ^ 32\<close> and does nothing
  else (one read and one write of the counter). No operation of \<open>System\<close> writes the
  counter: the returning ones leave it as it is and add no write of it to the trace;
  \<open>delayMs\<close>, as long as it runs and when it returns, is in a state that a run of counter
  reads, no-ops and interrupts produces; \<open>reset\<close> writes the reset request and then only
  spins. In every execution the writes of the counter are as many as the interrupts.
  \<open>getTicks\<close> returns the counter with a single read. So two successive reads differ by
  the number of interrupts in between, and the second is not below the first unless the
  counter wrapped.
\<close>

theorem SysTick_Handler_counts:
  "s_tickCount (SysTick_Handler s) = s_tickCount s + 1
   \<and> unat (s_tickCount (SysTick_Handler s)) = (unat (s_tickCount s) + 1) mod 2 ^ 32
   \<and> regs (SysTick_Handler s) = regs s
   \<and> trace (SysTick_Handler s) = trace s @ [Read TickCount, Write TickCount (s_tickCount s + 1)]
   \<and> (\<forall>x. x \<noteq> Irq_SysTick \<longrightarrow>
         s_tickCount (exec x s) = s_tickCount s
         \<and> (\<exists>evs. trace (exec x s) = trace s @ evs \<and> filter is_tick_write evs = []))
   \<and> (\<forall>irq ms k. (\<forall>j<k. elapsed irq j < ms) \<longrightarrow>
         delayMs irq ms s = delayMs_loop irq (s_tickCount s) ms k (run (delayMs_ops irq k) s))
   \<and> (\<forall>irq ms k s'. delayMs irq ms s = Some (k, s') \<longrightarrow>
         s' = run (delayMs_ops irq k @ [DelayMs_read]) s
         \<and> s_tickCount s' = s_tickCount (interrupts (\<Sum>j\<le>k. irq j) s))
   \<and> (\<forall>irq k. count_list (delayMs_ops irq k) Irq_SysTick = (\<Sum>j\<le>k. irq j))
   \<and> reset n s = Spinning (s\<lparr>regs := (regs s)(0xE000ED0C := 0x05FA0004),
         trace := trace s @ Write (Reg 0xE000ED0C) 0x05FA0004 # replicate n Nop\<rparr>)
   \<and> fst (getTicks s) = s_tickCount s
   \<and> trace (snd (getTicks s)) = trace s @ [Read TickCount]
   \<and> s_tickCount (snd (getTicks s)) = s_tickCount s
   \<and> (\<exists>evs. trace (run xs s) = trace s @ evs
         \<and> length (filter is_tick_write evs) = count_list xs Irq_SysTick)
   \<and> fst (getTicks (run xs (snd (getTicks s)))) = fst (getTicks s) + of_nat (count_list xs Irq_SysTick)
   \<and> (unat (fst (getTicks s)) + count_list xs Irq_SysTick < 2 ^ 32 \<longrightarrow>
        fst (getTicks s) \<le> fst (getTicks (run xs (snd (getTicks s)))))"
proof -
  have a: "unat (s_tickCount (SysTick_Handler s)) = (unat (s_tickCount s) + 1) mod 2 ^ 32"
    by (simp add: SysTick_Handler_tick unat_word_ariths)
  have b: "fst (getTicks (run xs (snd (getTicks s)))) = fst (getTicks s) + of_nat (count_list xs Irq_SysTick)"
    by (simp add: getTicks_def run_tick)
  have c: "unat (fst (getTicks s)) + count_list xs Irq_SysTick < 2 ^ 32 \<longrightarrow>
        fst (getTicks s) \<le> fst (getTicks (run xs (snd (getTicks s))))"
    by (simp only: b) (simp add: no_wrap_le)
  have d: "fst (getTicks s) = s_tickCount s \<and> trace (snd (getTicks s)) = trace s @ [Read TickCount]
     \<and> s_tickCount (snd (getTicks s)) = s_tickCount s"
    by (simp add: getTicks_def)
  have e: "\<forall>irq ms k s'. delayMs irq ms s = Some (k, s') \<longrightarrow>
         s' = run (delayMs_ops irq k @ [DelayMs_read]) s
         \<and> s_tickCount s' = s_tickCount (interrupts (\<Sum>j\<le>k. irq j) s)"
  proof (intro allI impI)
    fix irq ms k s' assume r: "delayMs irq ms s = Some (k, s')"
    from delayMs_Some [OF r] have "s' = snd (vread TickCount (poll_state irq s k))"
      by simp
    then have "s_tickCount s' = s_tickCount (interrupts (\<Sum>j\<le>k. irq j) s)"
      by (simp add: poll_state_tick interrupts_tick elapsed_def)
    with delayMs_final [OF r]
    show "s' = run (delayMs_ops irq k @ [DelayMs_read]) s
         \<and> s_tickCount s' = s_tickCount (interrupts (\<Sum>j\<le>k. irq j) s)"
      by simp
  qed
  have f: "\<forall>x. x \<noteq> Irq_SysTick \<longrightarrow>
         s_tickCount (exec x s) = s_tickCount s
         \<and> (\<exists>evs. trace (exec x s) = trace s @ evs \<and> filter is_tick_write evs = [])"
    using exec_tick exec_trace by blast
  have g: "\<forall>irq ms k. (\<forall>j<k. elapsed irq j < ms) \<longrightarrow>
         delayMs irq ms s = delayMs_loop irq (s_tickCount s) ms k (run (delayMs_ops irq k) s)"
    using delayMs_running by blast
  have h: "\<forall>irq k. count_list (delayMs_ops irq k) Irq_SysTick = (\<Sum>j\<le>k. irq j)"
    using delayMs_ops_count by blast
  have i: "s_tickCount (SysTick_Handler s) = s_tickCount s + 1
   \<and> regs (SysTick_Handler s) = regs s
   \<and> trace (SysTick_Handler s) = trace s @ [Read TickCount, Write TickCount (s_tickCount s + 1)]"
    by (simp add: SysTick_Handler_tick SysTick_Handler_regs SysTick_Handler_trace)
  from a b c d e f g h i reset_eq [of n s] run_trace [of xs s]
  show ?thesis by blast
qed

theorem SysTick_Handler_counts_witness:
  "Call_deepSleep \<noteq> Irq_SysTick
   \<and> s_tickCount (exec Call_deepSleep sys0) = 5
   \<and> filter is_tick_write (drop (length (trace sys0)) (trace (exec Call_deepSleep sys0))) = []
   \<and> elapsed one_tick_per_iteration 0 < (2 :: u32)
   \<and> delayMs one_tick_per_iteration 2 sys0
       = delayMs_loop one_tick_per_iteration (s_tickCount sys0) 2 1
           (run (delayMs_ops one_tick_per_iteration 1) sys0)
   \<and> unat (fst (getTicks sys0)) + count_list [Irq_SysTick, Call_sleep, Irq_SysTick] Irq_SysTick < 2 ^ 32
   \<and> fst (getTicks sys0) = 5
   \<and> fst (getTicks (run [Irq_SysTick, Call_sleep, Irq_SysTick] (snd (getTicks sys0)))) = 7
   \<and> fst (getTicks sys0) \<le> fst (getTicks (run [Irq_SysTick, Call_sleep, Irq_SysTick] (snd (getTicks sys0))))"
proof -
  note t = SysTick_Handler_counts [of sys0 0 "[Irq_SysTick, Call_sleep, Irq_SysTick]"]
  from t have a: "\<forall>x. x \<noteq> Irq_SysTick \<longrightarrow>
         s_tickCount (exec x sys0) = s_tickCount sys0
         \<and> (\<exists>evs. trace (exec x sys0) = trace sys0 @ evs \<and> filter is_tick_write evs = [])"
    by blast
  from t have b: "fst (getTicks (run [Irq_SysTick, Call_sleep, Irq_SysTick] (snd (getTicks sys0))))
      = fst (getTicks sys0) + of_nat (count_list [Irq_SysTick, Call_sleep, Irq_SysTick] Irq_SysTick)"
    by blast
  from t have c: "fst (getTicks sys0) = s_tickCount sys0"
    by blast
  from t have g: "\<forall>irq ms k. (\<forall>j<k. elapsed irq j < ms) \<longrightarrow>
         delayMs irq ms sys0 = delayMs_loop irq (s_tickCount sys0) ms k (run (delayMs_ops irq k) sys0)"
    by blast
  have d: "s_tickCount sys0 = 5"
    by (simp add: sys0_def)
  have ne: "Call_deepSleep \<noteq> Irq_SysTick" by simp
  from a ne have e: "s_tickCount (exec Call_deepSleep sys0) = s_tickCount sys0"
    and "\<exists>evs. trace (exec Call_deepSleep sys0) = trace sys0 @ evs \<and> filter is_tick_write evs = []"
    by blast+
  then obtain evs where "trace (exec Call_deepSleep sys0) = trace sys0 @ evs"
    and "filter is_tick_write evs = []" by blast
  then have f: "filter is_tick_write (drop (length (trace sys0)) (trace (exec Call_deepSleep sys0))) = []"
    by simp
  have el: "elapsed one_tick_per_iteration 0 < (2 :: u32)"
    by (simp add: elapsed_one_tick)
  then have "\<forall>j<1. elapsed one_tick_per_iteration j < (2 :: u32)" by simp
  with g have h: "delayMs one_tick_per_iteration 2 sys0
       = delayMs_loop one_tick_per_iteration (s_tickCount sys0) 2 1
           (run (delayMs_ops one_tick_per_iteration 1) sys0)"
    by blast
  from b c d e f el h ne show ?thesis by simp
qed

section \<open>Millisecond delay\<close>

text \<open>
  C2: \<open>delayMs\<close> returns at the \<open>k\<close>-th test of its loop condition exactly if that is the
  first test at which the unsigned 32-bit difference between the counter and its start
  value has reached \<open>ms\<close>; it never returns if the difference stays below \<open>ms\<close> forever.
  With a counter that advances once per iteration it returns after exactly \<open>ms\<close>
  iterations with the counter at \<open>start + ms\<close> modulo \<open>2 ^ 32\<close>, for every start value and
  every \<open>ms\<close>; started at 0xFFFFFFF0 for 32 ms it returns after 32 increments with the
  counter at 0x10.
\<close>

theorem delayMs_wrap_safe:
  "((\<exists>s'. delayMs irq ms s = Some (k, s')) \<longleftrightarrow>
      ms \<le> elapsed irq k \<and> (\<forall>j<k. elapsed irq j < ms))
   \<and> (\<forall>s'. delayMs irq ms s = Some (k, s') \<longrightarrow>
        s_tickCount s' - s_tickCount s = elapsed irq k \<and> regs s' = regs s)
   \<and> (delayMs irq ms s = None \<longleftrightarrow> (\<forall>j. elapsed irq j < ms))
   \<and> (\<exists>s'. delayMs one_tick_per_iteration ms s = Some (unat ms, s')
          \<and> s_tickCount s' = s_tickCount s + ms)
   \<and> (s_tickCount s = 0xFFFFFFF0 \<longrightarrow>
        (\<exists>s'. delayMs one_tick_per_iteration 32 s = Some (32, s') \<and> s_tickCount s' = 0x10))"
proof -
  have a: "(\<exists>s'. delayMs irq ms s = Some (k, s')) \<longleftrightarrow>
      ms \<le> elapsed irq k \<and> (\<forall>j<k. elapsed irq j < ms)"
    using delayMs_Some delayMs_returns by blast
  have b: "\<forall>s'. delayMs irq ms s = Some (k, s') \<longrightarrow>
        s_tickCount s' - s_tickCount s = elapsed irq k \<and> regs s' = regs s"
  proof (intro allI impI)
    fix s' assume "delayMs irq ms s = Some (k, s')"
    from delayMs_Some [OF this] have "s' = snd (vread TickCount (poll_state irq s k))"
      by simp
    then show "s_tickCount s' - s_tickCount s = elapsed irq k \<and> regs s' = regs s"
      by (simp add: poll_state_tick poll_state_regs)
  qed
  have c: "delayMs irq ms s = None \<longleftrightarrow> (\<forall>j. elapsed irq j < ms)"
  proof
    assume n: "delayMs irq ms s = None"
    show "\<forall>j. elapsed irq j < ms"
    proof (rule ccontr)
      assume "\<not> (\<forall>j. elapsed irq j < ms)"
      then obtain j where j: "ms \<le> elapsed irq j" by (auto simp: not_less)
      define m where "m = (LEAST j. ms \<le> elapsed irq j)"
      have m1: "ms \<le> elapsed irq m"
        unfolding m_def using j by (rule LeastI)
      have m2: "\<forall>i<m. elapsed irq i < ms"
        unfolding m_def using not_less_Least by (auto simp: not_le [symmetric])
      from delayMs_returns [OF m1 m2, of s] n show False by simp
    qed
  next
    assume "\<forall>j. elapsed irq j < ms"
    then show "delayMs irq ms s = None" by (rule delayMs_never)
  qed
  have d: "\<exists>s'. delayMs one_tick_per_iteration ms s = Some (unat ms, s')
          \<and> s_tickCount s' = s_tickCount s + ms"
    by (simp add: delayMs_one_tick poll_state_tick elapsed_one_tick)
  have e: "s_tickCount s = 0xFFFFFFF0 \<longrightarrow>
        (\<exists>s'. delayMs one_tick_per_iteration 32 s = Some (32, s') \<and> s_tickCount s' = 0x10)"
    using delayMs_one_tick [of 32 s]
    by (simp add: poll_state_tick elapsed_one_tick)
  from a b c d e show ?thesis by blast
qed

theorem delayMs_wrap_safe_witness:
  "(32 :: u32) \<le> elapsed one_tick_per_iteration 32
   \<and> elapsed one_tick_per_iteration 31 < (32 :: u32)
   \<and> s_tickCount sys_wrap = 0xFFFFFFF0
   \<and> (\<exists>s'. delayMs one_tick_per_iteration 32 sys_wrap = Some (32, s') \<and> s_tickCount s' = 0x10)"
proof -
  have a: "(32 :: u32) \<le> elapsed one_tick_per_iteration 32"
    by (simp add: elapsed_one_tick)
  have b: "\<forall>j<32. elapsed one_tick_per_iteration j < (32 :: u32)"
    by (simp add: elapsed_one_tick of_nat_less_u32)
  have c: "s_tickCount sys_wrap = 0xFFFFFFF0"
    by (simp add: sys_wrap_def)
  from b have b': "elapsed one_tick_per_iteration 31 < (32 :: u32)"
    by simp
  from a b b' c delayMs_wrap_safe [of one_tick_per_iteration 32 sys_wrap 32]
  show ?thesis by blast
qed

section \<open>Reset handler and vector table\<close>

lemma copy_data_at:
  "dst \<le> src \<or> src + (e - dst) \<le> dst \<Longrightarrow>
   copy_data src dst e m a = (if dst \<le> a \<and> a < e then m (src + (a - dst)) else m a)"
proof (induction src dst e m rule: copy_data.induct)
  case (1 src dst e m)
  show ?case
  proof (cases "dst < e")
    case False
    then show ?thesis by (subst copy_data.simps) auto
  next
    case True
    have ok: "Suc dst \<le> Suc src \<or> Suc src + (e - Suc dst) \<le> Suc dst"
      using "1.prems" True by auto
    have step: "copy_data src dst e m a = copy_data (Suc src) (Suc dst) e (m(dst := m src)) a"
      using True by (subst copy_data.simps) simp
    have IH: "copy_data (Suc src) (Suc dst) e (m(dst := m src)) a =
        (if Suc dst \<le> a \<and> a < e then (m(dst := m src)) (Suc src + (a - Suc dst))
         else (m(dst := m src)) a)"
      using "1.IH" [OF True ok] .
    show ?thesis
    proof (cases "Suc dst \<le> a \<and> a < e")
      case inner: True
      then have idx: "Suc src + (a - Suc dst) = src + (a - dst)"
        by arith
      from inner "1.prems" have ne: "src + (a - dst) \<noteq> dst"
        by arith
      from inner idx ne show ?thesis
        unfolding step IH by simp
    next
      case outer: False
      have v: "copy_data src dst e m a = (m(dst := m src)) a"
        unfolding step IH using outer by (simp only: if_False)
      show ?thesis
      proof (cases "a = dst")
        case True
        with \<open>dst < e\<close> v show ?thesis by simp
      next
        case False
        with outer have no: "\<not> (dst \<le> a \<and> a < e)" by arith
        from False v have "copy_data src dst e m a = m a" by simp
        with no show ?thesis by (simp only: if_False)
      qed
    qed
  qed
qed

lemma zero_bss_at:
  "zero_bss dst e m a = (if dst \<le> a \<and> a < e then 0 else m a)"
proof (induction dst e m rule: zero_bss.induct)
  case (1 dst e m)
  show ?case
  proof (cases "dst < e")
    case False
    then show ?thesis by (subst zero_bss.simps) auto
  next
    case True
    have step: "zero_bss dst e m a = zero_bss (Suc dst) e (m(dst := 0)) a"
      using True by (subst zero_bss.simps) simp
    show ?thesis
      unfolding step "1.IH" [OF True] using True by auto
  qed
qed


lemma fold_bind_None: "fold (\<lambda>p r. Option.bind r (code p)) ps None = None"
  by (induction ps) simp_all

lemma run_array_Returned:
  "fold (\<lambda>p r. Option.bind r (code p)) ps (Some (mem M)) = Some m' \<Longrightarrow>
   run_array code ps M = Returned (M\<lparr>mem := m', calls := calls M @ map Call_ctor ps\<rparr>)"
proof (induction ps arbitrary: M)
  case Nil
  then show ?case by simp
next
  case (Cons p ps)
  show ?case
  proof (cases "code p (mem M)")
    case None
    with Cons.prems show ?thesis by (simp add: fold_bind_None)
  next
    case (Some m1)
    with Cons.prems have
      "fold (\<lambda>p r. Option.bind r (code p)) ps
         (Some (mem (M\<lparr>calls := calls M @ [Call_ctor p], mem := m1\<rparr>))) = Some m'"
      by simp
    from Cons.IH [OF this] Some show ?thesis by (simp add: Let_def)
  qed
qed

lemma run_array_Hang:
  "fold (\<lambda>p r. Option.bind r (code p)) qs (Some (mem M)) = Some m \<Longrightarrow> code p m = None \<Longrightarrow>
   run_array code (qs @ p # rest) M
     = Hang (M\<lparr>mem := m, calls := calls M @ map Call_ctor qs @ [Call_ctor p]\<rparr>)"
proof (induction qs arbitrary: M)
  case Nil
  then show ?case by (simp add: Let_def)
next
  case (Cons q qs)
  show ?case
  proof (cases "code q (mem M)")
    case None
    with Cons.prems show ?thesis by (simp add: fold_bind_None)
  next
    case (Some m1)
    with Cons.prems have
      "fold (\<lambda>p r. Option.bind r (code p)) qs
         (Some (mem (M\<lparr>calls := calls M @ [Call_ctor q], mem := m1\<rparr>))) = Some m"
      by simp
    from Cons.IH [OF this Cons.prems(2)] Some show ?thesis by (simp add: Let_def)
  qed
qed

lemma run_array_append:
  "run_array code (ps @ qs) M =
     (case run_array code ps M of
        Returned M3 \<Rightarrow> run_array code qs M3
      | Hang M' \<Rightarrow> Hang M'
      | Spinning M' \<Rightarrow> Spinning M')"
  by (induction ps arbitrary: M) (simp_all add: Let_def split: option.splits)

lemma run_array_not_Spinning: "run_array code ps M \<noteq> Spinning M'"
  by (induction ps arbitrary: M) (simp_all add: Let_def split: option.splits)

lemma spin_eq: "spin n M = Spinning (M\<lparr>calls := calls M @ replicate n Spin_nop\<rparr>)"
proof (induction n arbitrary: M)
  case 0
  then show ?case by simp
next
  case (Suc n)
  show ?case by (simp add: Suc nop_step_def replicate_app_Cons_same)
qed

lemma Reset_Handler_eq:
  "Reset_Handler n L code main_fn M =
     (case run_array code (preinit_array L @ init_array L)
             (M\<lparr>mem := zero_bss (sbss L) (ebss L)
                          (copy_data (sidata L) (sdata L) (edata L) (mem M))\<rparr>) of
        Returned M4 \<Rightarrow>
          (case call_main main_fn M4 of
             Returned M5 \<Rightarrow> spin n M5
           | Hang M' \<Rightarrow> Hang M'
           | Spinning M' \<Rightarrow> Spinning M')
      | Hang M' \<Rightarrow> Hang M'
      | Spinning M' \<Rightarrow> Spinning M')"
  by (simp add: Reset_Handler_def run_array_append Let_def split: outcome.splits)

lemma Reset_Handler_spins:
  fixes M :: machine
  assumes "fold (\<lambda>p r. Option.bind r (code p)) (preinit_array L @ init_array L)
      (Some (zero_bss (sbss L) (ebss L) (copy_data (sidata L) (sdata L) (edata L) (mem M)))) = Some m4"
    and "main_fn m4 = Some m5"
  shows "Reset_Handler n L code main_fn M =
     Spinning \<lparr>mem = m5, calls = calls M @ map Call_ctor (preinit_array L)
        @ map Call_ctor (init_array L) @ [Call_main] @ replicate n Spin_nop\<rparr>"
proof -
  let ?M2 = "M\<lparr>mem := zero_bss (sbss L) (ebss L)
                          (copy_data (sidata L) (sdata L) (edata L) (mem M))\<rparr>"
  from assms(1) have "fold (\<lambda>p r. Option.bind r (code p)) (preinit_array L @ init_array L)
      (Some (mem ?M2)) = Some m4" by simp
  from run_array_Returned [OF this] assms(2) show ?thesis
    by (simp add: Reset_Handler_eq call_main_def spin_eq Let_def)
qed

lemma Reset_Handler_hangs_in_main:
  fixes M :: machine
  assumes "fold (\<lambda>p r. Option.bind r (code p)) (preinit_array L @ init_array L)
      (Some (zero_bss (sbss L) (ebss L) (copy_data (sidata L) (sdata L) (edata L) (mem M)))) = Some m4"
    and "main_fn m4 = None"
  shows "Reset_Handler n L code main_fn M =
     Hang \<lparr>mem = m4, calls = calls M @ map Call_ctor (preinit_array L)
        @ map Call_ctor (init_array L) @ [Call_main]\<rparr>"
proof -
  let ?M2 = "M\<lparr>mem := zero_bss (sbss L) (ebss L)
                          (copy_data (sidata L) (sdata L) (edata L) (mem M))\<rparr>"
  from assms(1) have "fold (\<lambda>p r. Option.bind r (code p)) (preinit_array L @ init_array L)
      (Some (mem ?M2)) = Some m4" by simp
  from run_array_Returned [OF this] assms(2) show ?thesis
    by (simp add: Reset_Handler_eq call_main_def Let_def)
qed

lemma Reset_Handler_hangs_in_ctor:
  fixes M :: machine
  assumes "preinit_array L @ init_array L = qs @ p # rest"
    and "fold (\<lambda>p r. Option.bind r (code p)) qs
      (Some (zero_bss (sbss L) (ebss L) (copy_data (sidata L) (sdata L) (edata L) (mem M)))) = Some m"
    and "code p m = None"
  shows "Reset_Handler n L code main_fn M =
     Hang \<lparr>mem = m, calls = calls M @ map Call_ctor qs @ [Call_ctor p]\<rparr>"
proof -
  let ?M2 = "M\<lparr>mem := zero_bss (sbss L) (ebss L)
                          (copy_data (sidata L) (sdata L) (edata L) (mem M))\<rparr>"
  from assms(2) have "fold (\<lambda>p r. Option.bind r (code p)) qs (Some (mem ?M2)) = Some m"
    by simp
  from run_array_Hang [OF this assms(3), of rest] show ?thesis
    by (simp add: Reset_Handler_eq assms(1))
qed

lemma Reset_Handler_never_returns: "Reset_Handler n L code main_fn M \<noteq> Returned M'"
  by (simp add: Reset_Handler_eq call_main_def spin_eq Let_def
      split: outcome.splits option.splits)

lemma count_Call_main: "count_list (map Call_ctor ps) Call_main = 0"
  by (induction ps) simp_all

lemma count_Spin_nop: "count_list (replicate n Spin_nop) Call_main = 0"
  by (induction n) simp_all

text \<open>
  C1: \<open>Reset_Handler\<close> first copies the data image cell by cell from \<open>sidata\<close> into
  \<open>[sdata, edata)\<close>, then zero-fills \<open>[sbss, ebss)\<close>, then calls the pre-init
  constructors and the init constructors in array order, each on the memory the one
  before left, then calls \<open>main\<close>, once, on the memory the last constructor left. When
  \<open>main\<close> returns the handler goes round a no-op loop, on the memory \<open>main\<close> left, and
  is still in it after any number of passes; when \<open>main\<close> or a constructor does not
  return, the handler hangs at that call with everything before it done. In no case does
  the handler return. Entry 0 of the vector table is the stack top and entry 1 is
  \<open>Reset_Handler\<close>. The copy yields the image provided the load region is not overwritten
  before it is read, as is the case for an image in flash and a run region in RAM.
\<close>

theorem Reset_Handler_sequence:
  fixes M :: machine
  assumes "sdata L \<le> sidata L \<or> sidata L + (edata L - sdata L) \<le> sdata L"
  shows
    "(\<forall>a. copy_data (sidata L) (sdata L) (edata L) m a =
          (if sdata L \<le> a \<and> a < edata L then m (sidata L + (a - sdata L)) else m a))
     \<and> (\<forall>a. zero_bss (sbss L) (ebss L) m' a = (if sbss L \<le> a \<and> a < ebss L then 0 else m' a))
     \<and> (\<forall>m4 m5.
           fold (\<lambda>p r. Option.bind r (code p)) (preinit_array L @ init_array L)
             (Some (zero_bss (sbss L) (ebss L)
                      (copy_data (sidata L) (sdata L) (edata L) (mem M)))) = Some m4
           \<and> main_fn m4 = Some m5 \<longrightarrow>
           Reset_Handler n L code main_fn M =
             Spinning \<lparr>mem = m5, calls = calls M @ map Call_ctor (preinit_array L)
               @ map Call_ctor (init_array L) @ [Call_main] @ replicate n Spin_nop\<rparr>)
     \<and> (\<forall>m4.
           fold (\<lambda>p r. Option.bind r (code p)) (preinit_array L @ init_array L)
             (Some (zero_bss (sbss L) (ebss L)
                      (copy_data (sidata L) (sdata L) (edata L) (mem M)))) = Some m4
           \<and> main_fn m4 = None \<longrightarrow>
           Reset_Handler n L code main_fn M =
             Hang \<lparr>mem = m4, calls = calls M @ map Call_ctor (preinit_array L)
               @ map Call_ctor (init_array L) @ [Call_main]\<rparr>)
     \<and> (\<forall>qs p rest m.
           preinit_array L @ init_array L = qs @ p # rest
           \<and> fold (\<lambda>p r. Option.bind r (code p)) qs
               (Some (zero_bss (sbss L) (ebss L)
                        (copy_data (sidata L) (sdata L) (edata L) (mem M)))) = Some m
           \<and> code p m = None \<longrightarrow>
           Reset_Handler n L code main_fn M =
             Hang \<lparr>mem = m, calls = calls M @ map Call_ctor qs @ [Call_ctor p]\<rparr>)
     \<and> (\<forall>M'. Reset_Handler n L code main_fn M \<noteq> Returned M')
     \<and> count_list (map Call_ctor (preinit_array L) @ map Call_ctor (init_array L)
           @ [Call_main] @ replicate n Spin_nop) Call_main = 1
     \<and> g_pfnVectors ! 0 = Estack
     \<and> g_pfnVectors ! 1 = Fn ''Reset_Handler''"
proof -
  have a: "\<forall>a. copy_data (sidata L) (sdata L) (edata L) m a =
          (if sdata L \<le> a \<and> a < edata L then m (sidata L + (a - sdata L)) else m a)"
    using copy_data_at [OF assms] by blast
  have b: "\<forall>a. zero_bss (sbss L) (ebss L) m' a = (if sbss L \<le> a \<and> a < ebss L then 0 else m' a)"
    using zero_bss_at by blast
  have c: "count_list (map Call_ctor (preinit_array L) @ map Call_ctor (init_array L)
           @ [Call_main] @ replicate n Spin_nop) Call_main = 1"
    by (simp add: count_Call_main count_Spin_nop)
  have d: "g_pfnVectors ! 0 = Estack \<and> g_pfnVectors ! 1 = Fn ''Reset_Handler''"
    by (simp add: g_pfnVectors_def)
  have e: "\<forall>M'. Reset_Handler n L code main_fn M \<noteq> Returned M'"
    using Reset_Handler_never_returns by blast
  from a b c d e Reset_Handler_spins [of code L M _ main_fn _ n]
    Reset_Handler_hangs_in_main [of code L M _ main_fn n]
    Reset_Handler_hangs_in_ctor [of L _ _ _ code M _ n main_fn]
  show ?thesis by blast
qed

theorem Reset_Handler_sequence_witness:
  "sidata stub_image + (edata stub_image - sdata stub_image) \<le> sdata stub_image
   \<and> (\<exists>M5. Reset_Handler 3 stub_image stub_code stub_main stub_machine = Spinning M5
         \<and> mem M5 4 = 0xDEADBEEF \<and> mem M5 5 = 0 \<and> mem M5 6 = 0 \<and> mem M5 7 = 0xFFFFFFFF
         \<and> mem M5 100 = 1 \<and> mem M5 101 = 1 \<and> mem M5 102 = 1 \<and> mem M5 200 = 7
         \<and> calls M5 = [Call_ctor 100, Call_ctor 101, Call_ctor 102, Call_main,
                        Spin_nop, Spin_nop, Spin_nop])
   \<and> (\<exists>M4. Reset_Handler 3 stub_image stub_code endless_main stub_machine = Hang M4
         \<and> mem M4 4 = 0xDEADBEEF \<and> mem M4 5 = 0 \<and> mem M4 6 = 0 \<and> mem M4 102 = 1
         \<and> calls M4 = [Call_ctor 100, Call_ctor 101, Call_ctor 102, Call_main])"
proof -
  let ?m0 = "mem stub_machine"
  let ?m2 = "zero_bss 5 7 (copy_data 0 4 5 ?m0)"
  let ?m4 = "?m2(100 := 1, 101 := 1, 102 := 1)"
  have h: "sdata stub_image \<le> sidata stub_image
      \<or> sidata stub_image + (edata stub_image - sdata stub_image) \<le> sdata stub_image"
    by (simp add: stub_image_def)
  note t1 = Reset_Handler_sequence [OF h, where m = ?m0 and m' = "copy_data 0 4 5 ?m0"
      and code = stub_code and main_fn = stub_main and M = stub_machine and n = 3]
  note t2 = Reset_Handler_sequence [OF h, where m = ?m0 and m' = "copy_data 0 4 5 ?m0"
      and code = stub_code and main_fn = endless_main and M = stub_machine and n = 3]
  from t1 have cp: "\<forall>a. copy_data 0 4 5 ?m0 a =
      (if 4 \<le> a \<and> a < 5 then ?m0 (0 + (a - 4)) else ?m0 a)"
    by (simp add: stub_image_def)
  from t1 have zb: "\<forall>a. ?m2 a = (if 5 \<le> a \<and> a < 7 then 0 else copy_data 0 4 5 ?m0 a)"
    by (simp add: stub_image_def)
  have fold_eq: "fold (\<lambda>p r. Option.bind r (stub_code p))
        (preinit_array stub_image @ init_array stub_image)
        (Some (zero_bss (sbss stub_image) (ebss stub_image)
                 (copy_data (sidata stub_image) (sdata stub_image) (edata stub_image) ?m0)))
      = Some ?m4"
    by (simp add: stub_image_def stub_code_def)
  have main1: "stub_main ?m4 = Some (?m4(200 := 7))" by (simp add: stub_main_def)
  have main2: "endless_main ?m4 = None" by (simp add: endless_main_def)
  from t1 fold_eq main1 have r1:
    "Reset_Handler 3 stub_image stub_code stub_main stub_machine =
       Spinning \<lparr>mem = ?m4(200 := 7), calls = calls stub_machine
         @ map Call_ctor (preinit_array stub_image) @ map Call_ctor (init_array stub_image)
         @ [Call_main] @ replicate 3 Spin_nop\<rparr>"
    by blast
  from t2 fold_eq main2 have r2:
    "Reset_Handler 3 stub_image stub_code endless_main stub_machine =
       Hang \<lparr>mem = ?m4, calls = calls stub_machine
         @ map Call_ctor (preinit_array stub_image) @ map Call_ctor (init_array stub_image)
         @ [Call_main]\<rparr>"
    by blast
  have vals: "?m2 4 = 0xDEADBEEF \<and> ?m2 5 = 0 \<and> ?m2 6 = 0 \<and> ?m2 7 = 0xFFFFFFFF"
    by (simp only: zb cp) (simp add: stub_machine_def)
  have c: "calls stub_machine = []" by (simp add: stub_machine_def)
  have l: "preinit_array stub_image = [100] \<and> init_array stub_image = [101, 102]"
    by (simp add: stub_image_def)
  have n3: "replicate 3 Spin_nop = [Spin_nop, Spin_nop, Spin_nop]"
    by (simp add: numeral_3_eq_3)
  have g1: "\<exists>M5. Reset_Handler 3 stub_image stub_code stub_main stub_machine = Spinning M5
         \<and> mem M5 4 = 0xDEADBEEF \<and> mem M5 5 = 0 \<and> mem M5 6 = 0 \<and> mem M5 7 = 0xFFFFFFFF
         \<and> mem M5 100 = 1 \<and> mem M5 101 = 1 \<and> mem M5 102 = 1 \<and> mem M5 200 = 7
         \<and> calls M5 = [Call_ctor 100, Call_ctor 101, Call_ctor 102, Call_main,
                        Spin_nop, Spin_nop, Spin_nop]"
    unfolding r1 using vals c l n3 by simp
  have g2: "\<exists>M4. Reset_Handler 3 stub_image stub_code endless_main stub_machine = Hang M4
         \<and> mem M4 4 = 0xDEADBEEF \<and> mem M4 5 = 0 \<and> mem M4 6 = 0 \<and> mem M4 102 = 1
         \<and> calls M4 = [Call_ctor 100, Call_ctor 101, Call_ctor 102, Call_main]"
    unfolding r2 using vals c l by simp
  have g0: "sidata stub_image + (edata stub_image - sdata stub_image) \<le> sdata stub_image"
    by (simp add: stub_image_def)
  from g0 g1 g2 show ?thesis by blast
qed

section \<open>UART transmit ring\<close>

lemma buffer_size_word: "(of_nat UART_BUFFER_SIZE :: u16) = 256"
  by (simp add: UART_BUFFER_SIZE_def)

lemma succ_mod_256: "h < 256 \<Longrightarrow> (h + 1) mod 256 = (if h = 255 then 0 else h + (1 :: nat))"
  by auto

lemma unat_next_index:
  assumes "unat (i :: u16) < 256"
  shows "unat ((i + 1) mod 256) = (if unat i = 255 then 0 else unat i + 1)"
proof -
  from assms have "unat i + unat (1 :: u16) < 2 ^ LENGTH(16)" by simp
  then have "unat (i + 1) = unat i + unat (1 :: u16)"
    by (simp only: unat_add_lem [THEN iffD1])
  then have "unat ((i + 1) mod 256) = (unat i + 1) mod 256"
    by (simp add: unat_mod)
  with assms show ?thesis by (simp only: succ_mod_256)
qed

lemma count_cases:
  "h < 256 \<Longrightarrow> t < 256 \<Longrightarrow>
   (h + 256 - t) mod 256 = (if t \<le> h then h - t else h + 256 - (t :: nat))"
proof (cases "t \<le> h")
  case True
  assume "h < 256" "t < 256"
  from True have "h + 256 - t = (h - t) + 256" by simp
  then have "(h + 256 - t) mod 256 = ((h - t) + 256) mod 256" by (simp only:)
  also have "\<dots> = (h - t) mod 256" by (rule mod_add_self2)
  also have "\<dots> = h - t" using \<open>h < 256\<close> by simp
  finally show ?thesis using True by (simp only: if_True)
next
  case False
  assume "h < 256" "t < 256"
  with False show ?thesis by simp
qed

lemma tx_count_eq:
  "tx_wf u \<Longrightarrow> tx_count u =
     (if unat (m_txTail u) \<le> unat (m_txHead u) then unat (m_txHead u) - unat (m_txTail u)
      else unat (m_txHead u) + 256 - unat (m_txTail u))"
  by (simp add: tx_count_def tx_wf_def UART_BUFFER_SIZE_def count_cases)

lemma tx_full_iff:
  "tx_wf u \<Longrightarrow> tx_full u \<longleftrightarrow>
     (if unat (m_txHead u) = 255 then 0 else unat (m_txHead u) + 1) = unat (m_txTail u)"
proof -
  assume wf: "tx_wf u"
  then have h: "unat (m_txHead u) < 256" by (simp add: tx_wf_def UART_BUFFER_SIZE_def)
  have "tx_full u \<longleftrightarrow> unat ((m_txHead u + 1) mod 256) = unat (m_txTail u)"
    by (simp only: tx_full_def buffer_size_word word_unat_eq_iff)
  then show ?thesis by (simp only: unat_next_index [OF h])
qed


lemma tx_count_le: "tx_count u \<le> 255"
proof -
  have "tx_count u < 256" by (simp add: tx_count_def UART_BUFFER_SIZE_def)
  then show ?thesis by simp
qed


lemma tx_count_full: "tx_wf u \<Longrightarrow> tx_count u = 255 \<longleftrightarrow> tx_full u"
proof -
  assume wf: "tx_wf u"
  then have "unat (m_txHead u) < 256" "unat (m_txTail u) < 256"
    by (simp_all add: tx_wf_def UART_BUFFER_SIZE_def)
  then show ?thesis
    unfolding tx_count_eq [OF wf] tx_full_iff [OF wf] by (auto split: if_splits)
qed

lemma tx_enqueue_Cons:
  "tx_enqueue (b # bs) u = (if tx_full u then None else tx_enqueue bs (tx_push b u))"
  by simp



lemma tx_push_head:
  "tx_wf u \<Longrightarrow> unat (m_txHead (tx_push b u)) =
     (if unat (m_txHead u) = 255 then 0 else unat (m_txHead u) + 1)"
  by (simp add: tx_push_def tx_wf_def UART_BUFFER_SIZE_def buffer_size_word unat_next_index)

lemma tx_push_frame:
  "m_txTail (tx_push b u) = m_txTail u \<and> txe_irq_enabled (tx_push b u) = txe_irq_enabled u
   \<and> data_register (tx_push b u) = data_register u
   \<and> length (m_txBuffer (tx_push b u)) = length (m_txBuffer u)"
  by (simp add: tx_push_def)

lemma tx_wf_push: "tx_wf u \<Longrightarrow> tx_wf (tx_push b u)"
proof -
  assume wf: "tx_wf u"
  from tx_push_head [OF wf, of b] have "unat (m_txHead (tx_push b u)) < 256"
    using wf by (auto simp: tx_wf_def UART_BUFFER_SIZE_def split: if_splits)
  with wf show ?thesis
    by (simp add: tx_wf_def tx_push_frame UART_BUFFER_SIZE_def)
qed

lemma tx_count_push:
  assumes wf: "tx_wf u" and nf: "\<not> tx_full u"
  shows "tx_count (tx_push b u) = tx_count u + 1"
proof -
  from wf have b: "unat (m_txHead u) < 256" "unat (m_txTail u) < 256"
    by (simp_all add: tx_wf_def UART_BUFFER_SIZE_def)
  from nf tx_full_iff [OF wf]
  have nf': "(if unat (m_txHead u) = 255 then 0 else unat (m_txHead u) + 1) \<noteq> unat (m_txTail u)"
    by blast
  have c1: "tx_count (tx_push b u) =
     (if unat (m_txTail u) \<le> (if unat (m_txHead u) = 255 then 0 else unat (m_txHead u) + 1)
      then (if unat (m_txHead u) = 255 then 0 else unat (m_txHead u) + 1) - unat (m_txTail u)
      else (if unat (m_txHead u) = 255 then 0 else unat (m_txHead u) + 1) + 256 - unat (m_txTail u))"
    by (simp only: tx_count_eq [OF tx_wf_push [OF wf]] tx_push_head [OF wf] tx_push_frame)
  show ?thesis
    unfolding c1 tx_count_eq [OF wf] using b nf' by (auto split: if_splits)
qed

lemma tx_enqueue_Some:
  "tx_wf u \<Longrightarrow> length bs \<le> 255 - tx_count u \<Longrightarrow>
   \<exists>u'. tx_enqueue bs u = Some u' \<and> tx_wf u' \<and> tx_count u' = tx_count u + length bs
        \<and> m_txTail u' = m_txTail u \<and> txe_irq_enabled u' = txe_irq_enabled u
        \<and> data_register u' = data_register u"
proof (induction bs arbitrary: u)
  case Nil
  then show ?case by simp
next
  case (Cons b bs)
  from Cons.prems have "tx_count u \<noteq> 255" by auto
  with Cons.prems(1) have nf: "\<not> tx_full u" by (simp add: tx_count_full)
  have wf': "tx_wf (tx_push b u)" using Cons.prems(1) by (rule tx_wf_push)
  have cnt: "tx_count (tx_push b u) = tx_count u + 1"
    using Cons.prems(1) nf by (rule tx_count_push)
  from Cons.prems(2) cnt have "length bs \<le> 255 - tx_count (tx_push b u)" by simp
  from Cons.IH [OF wf' this] obtain u' where
    "tx_enqueue bs (tx_push b u) = Some u'" "tx_wf u'"
    "tx_count u' = tx_count (tx_push b u) + length bs"
    "m_txTail u' = m_txTail (tx_push b u)"
    "txe_irq_enabled u' = txe_irq_enabled (tx_push b u)"
    "data_register u' = data_register (tx_push b u)"
    by blast
  with nf cnt show ?case
    by (simp only: tx_enqueue_Cons tx_push_frame) simp
qed

lemma tx_enqueue_None:
  "tx_wf u \<Longrightarrow> 255 - tx_count u < length bs \<Longrightarrow> tx_enqueue bs u = None"
proof (induction bs arbitrary: u)
  case Nil
  then show ?case by simp
next
  case (Cons b bs)
  show ?case
  proof (cases "tx_full u")
    case True
    then show ?thesis by (simp only: tx_enqueue_Cons if_True)
  next
    case False
    have wf': "tx_wf (tx_push b u)" using Cons.prems(1) by (rule tx_wf_push)
    have cnt: "tx_count (tx_push b u) = tx_count u + 1"
      using Cons.prems(1) False by (rule tx_count_push)
    from False Cons.prems(1) have "tx_count u \<noteq> 255" by (simp add: tx_count_full)
    with Cons.prems(2) cnt tx_count_le [of u]
    have "255 - tx_count (tx_push b u) < length bs" by simp
    from Cons.IH [OF wf' this] False show ?thesis
      by (simp only: tx_enqueue_Cons if_False)
  qed
qed

lemma tx_enqueue_wf: "tx_wf u \<Longrightarrow> tx_enqueue bs u = Some u' \<Longrightarrow> tx_wf u'"
proof -
  assume wf: "tx_wf u" and some: "tx_enqueue bs u = Some u'"
  have "length bs \<le> 255 - tx_count u"
  proof (rule ccontr)
    assume "\<not> length bs \<le> 255 - tx_count u"
    then have "255 - tx_count u < length bs" by simp
    from tx_enqueue_None [OF wf this] some show False by simp
  qed
  from tx_enqueue_Some [OF wf this] some show ?thesis by auto
qed







lemma tx_pending_frame:
  "tx_pending (u\<lparr>txe_irq_enabled := x, data_register := y\<rparr>) = tx_pending u"
  by (simp add: tx_pending_def tx_count_def)









































end
